theory Spec2Isabelle
  imports Main "HOL-Library.FSet" "HOL-Library.Sublist"
begin

section \<open>Data model of \<open>src/App.tsx\<close>\<close>

text \<open>
  The two interfaces of the component. JavaScript numbers are modelled as \<open>int\<close>:
  identifiers, page numbers and counts are integers, exact below \<open>2^53\<close>.
  The field \<open>id\<close> is written \<open>id'\<close>.
\<close>

record Artwork =
  id' :: int
  title :: string
  place_of_origin :: string
  artist_display :: string
  inscriptions :: string
  date_start :: int
  date_end :: int

record PaginationInfo =
  total' :: int
  limit :: int
  offset :: int
  total_pages :: int
  current_page :: int

text \<open>
  What a request gives. The awaited chain \<open>fetch(...)\<close> then \<open>response.json()\<close>
  rejects when the transport fails or the body is not JSON; a body that is \<open>null\<close>
  makes the read of its field throw a \<open>TypeError\<close> at the same place, inside the
  \<open>try\<close> of \<open>fetchArtworks\<close> and outside any in the bulk selection: these are
  \<open>Rejected\<close>. Otherwise the chain resolves, whatever the status of the response (the
  code does not test \<open>response.ok\<close>), and the code reads \<open>data.data\<close> and
  \<open>data.pagination\<close> without testing them: \<open>Resolved\<close> is a body with both fields,
  \<open>NoPagination\<close> a body with \<open>data\<close> only, and \<open>NoData\<close> a body without \<open>data\<close>,
  as the error body of a non-success status is; the read of a missing field gives
  \<open>undefined\<close>. A field that is present is taken to have the type the interfaces
  declare.
\<close>

datatype error = NetworkError | ParseError | TypeError

datatype response =
    Rejected error
  | Resolved "Artwork list" PaginationInfo
  | NoPagination "Artwork list"
  | NoData

text \<open>
  The \<open>useState\<close> cells of the component. \<open>Set<number>\<close> is a finite set: the code
  uses only \<open>add\<close>, \<open>delete\<close>, \<open>has\<close> and \<open>size\<close>, none of which observes the
  insertion order. The overlay panel is not a cell of the state: hiding it is an
  effect.

  The cells \<open>artworks\<close> and \<open>pagination\<close> have the types the source declares, which
  have no \<open>undefined\<close>. When a setter stores \<open>undefined\<close> in one of them, the render
  that follows throws (\<open>artworks.filter\<close> in \<open>getCurrentPageSelectedRows\<close>,
  \<open>pagination.offset\<close> in the paginator's properties) and, there being no error
  boundary, React removes the component: nothing is displayed and no handler runs
  again. \<open>mounted\<close> is not a cell: it is \<open>False\<close> from then on, and the cells of a
  component that is not mounted say nothing.
\<close>

record app_state =
  artworks :: "Artwork list"
  loading :: bool
  pagination :: PaginationInfo
  selectedRowIds :: "int fset"
  rowCountInput :: string
  mounted :: bool

definition initial_state :: app_state where
  "initial_state =
     \<lparr>artworks = [], loading = False,
      pagination = \<lparr>total' = 0, limit = 12, offset = 0, total_pages = 0, current_page = 1\<rparr>,
      selectedRowIds = {||}, rowCountInput = '''', mounted = True\<rparr>"

text \<open>
  What a handler does to the outside, in order: a request for a page, an \<open>alert\<close>,
  a \<open>console.error\<close>, hiding the overlay panel.
\<close>

datatype effect = Fetch int | Alert string | ConsoleError string error | HideOverlay

section \<open>\<open>parseInt\<close>\<close>

text \<open>
  ECMAScript \<open>parseInt(string)\<close> with no radix, on ASCII text: leading white space is
  skipped, one sign is read, a prefix \<open>0x\<close> or \<open>0X\<close> selects radix 16, and the longest
  run of digits of the radix is the value; no digit at all gives \<open>NaN\<close>, here \<open>None\<close>.
\<close>

definition isWhiteSpace :: "char \<Rightarrow> bool" where
  "isWhiteSpace c \<longleftrightarrow> c \<in> set [CHR 0x09, CHR 0x0A, CHR 0x0B, CHR 0x0C, CHR 0x0D, CHR '' '']"

definition digitValue :: "char \<Rightarrow> nat option" where
  "digitValue c =
     (let k = (of_char c :: nat) in
      if 48 \<le> k \<and> k \<le> 57 then Some (k - 48)
      else if 97 \<le> k \<and> k \<le> 102 then Some (k - 87)
      else if 65 \<le> k \<and> k \<le> 70 then Some (k - 55)
      else None)"

definition radixDigit :: "nat \<Rightarrow> char \<Rightarrow> nat option" where
  "radixDigit R c = (case digitValue c of None \<Rightarrow> None | Some d \<Rightarrow> if d < R then Some d else None)"

definition mathInt :: "nat \<Rightarrow> string \<Rightarrow> nat" where
  "mathInt R Z = foldl (\<lambda>acc c. acc * R + (case radixDigit R c of Some d \<Rightarrow> d | None \<Rightarrow> 0)) 0 Z"

definition parseInt :: "string \<Rightarrow> int option" where
  "parseInt inputString =
     (let S = dropWhile isWhiteSpace inputString;
          sign = (if S \<noteq> [] \<and> hd S = CHR ''-'' then - 1 else 1 :: int);
          S1 = (if S \<noteq> [] \<and> (hd S = CHR ''+'' \<or> hd S = CHR ''-'') then tl S else S);
          hex = (2 \<le> length S1 \<and> (take 2 S1 = ''0x'' \<or> take 2 S1 = ''0X''));
          R = (if hex then 16 else 10 :: nat);
          S2 = (if hex then drop 2 S1 else S1);
          Z = takeWhile (\<lambda>c. radixDigit R c \<noteq> None) S2
      in if Z = [] then None else Some (sign * int (mathInt R Z)))"

section \<open>Page navigation: \<open>fetchArtworks\<close>\<close>

text \<open>
  \<open>fetchArtworks\<close> runs up to its first \<open>await\<close> when it is called
  (\<open>setLoading(true)\<close>, the request leaves), and the rest of its body runs when the
  response arrives: on success the two setters, on rejection the \<open>catch\<close>, and in both
  cases the \<open>finally\<close>. The setters run on whatever the body holds. With a field
  missing they store \<open>undefined\<close> and throw nothing, so the \<open>catch\<close> does not run and
  nothing is logged; the three updates of the continuation are rendered together after
  it (the batching of React 18), and that render removes the component.
\<close>

definition fetchArtworks_call :: "int \<Rightarrow> app_state \<Rightarrow> app_state \<times> effect list" where
  "fetchArtworks_call page s = (s\<lparr>loading := True\<rparr>, [Fetch page])"

definition fetchArtworks_resume :: "response \<Rightarrow> app_state \<Rightarrow> app_state \<times> effect list" where
  "fetchArtworks_resume r s =
     (case r of
        Resolved d p \<Rightarrow> (s\<lparr>artworks := d, pagination := p, loading := False\<rparr>, [])
      | Rejected e \<Rightarrow> (s\<lparr>loading := False\<rparr>, [ConsoleError ''Error fetching artworks:'' e])
      | NoPagination d \<Rightarrow> (s\<lparr>artworks := d, loading := False, mounted := False\<rparr>, [])
      | NoData \<Rightarrow> (s\<lparr>loading := False, mounted := False\<rparr>, []))"

text \<open>A call whose response arrives before anything else happens.\<close>

definition fetchArtworks :: "(int \<Rightarrow> response) \<Rightarrow> int \<Rightarrow> app_state \<Rightarrow> app_state \<times> effect list" where
  "fetchArtworks server page s =
     (case fetchArtworks_call page s of
        (s1, out1) \<Rightarrow> (case fetchArtworks_resume (server page) s1 of
                        (s2, out2) \<Rightarrow> (s2, out1 @ out2)))"

text \<open>
  The paginator's event carries a 0-based page; \<open>handlePageChange\<close> calls
  \<open>fetchArtworks\<close> with the 1-based one.
\<close>

definition handlePageChange_call :: "int \<Rightarrow> app_state \<Rightarrow> app_state \<times> effect list" where
  "handlePageChange_call event_page s = (let page = event_page + 1 in fetchArtworks_call page s)"

text \<open>
  Overlapping calls. The component is single-threaded, so a run is a sequence of
  events: a call of \<open>fetchArtworks\<close>, or the arrival of the response to the \<open>i\<close>-th
  request still in flight (0 is the oldest). A configuration is the state together
  with the pages of the requests in flight.
\<close>

datatype event = Call int | Arrive nat

fun step :: "(int \<Rightarrow> response) \<Rightarrow> event \<Rightarrow> app_state \<times> int list \<Rightarrow> app_state \<times> int list" where
  "step server (Call page) (s, inflight) = (fst (fetchArtworks_call page s), inflight @ [page])"
| "step server (Arrive i) (s, inflight) =
     (if i < length inflight
      then (fst (fetchArtworks_resume (server (inflight ! i)) s), take i inflight @ drop (Suc i) inflight)
      else (s, inflight))"

definition run :: "(int \<Rightarrow> response) \<Rightarrow> event list \<Rightarrow> app_state \<times> int list \<Rightarrow> app_state \<times> int list" where
  "run server evs c = fold (step server) evs c"

section \<open>Selection: \<open>handleSelectionChange\<close> and \<open>getCurrentPageSelectedRows\<close>\<close>

text \<open>
  \<open>e.value\<close> is \<open>None\<close> when it is not an array; the copy of the set is then stored
  back as it is.
\<close>

definition handleSelectionChange :: "Artwork list option \<Rightarrow> app_state \<Rightarrow> app_state" where
  "handleSelectionChange e_value s =
     (let updatedSelectedIds = selectedRowIds s;
          updatedSelectedIds =
            (case e_value of
               None \<Rightarrow> updatedSelectedIds
             | Some rows \<Rightarrow>
                 (let currentPageRowIds = map id' (artworks s);
                      deleted = fold (\<lambda>i u. u |-| {|i|}) currentPageRowIds updatedSelectedIds
                  in fold (\<lambda>artwork u. finsert (id' artwork) u) rows deleted))
      in s\<lparr>selectedRowIds := updatedSelectedIds\<rparr>)"

definition getCurrentPageSelectedRows :: "app_state \<Rightarrow> Artwork list" where
  "getCurrentPageSelectedRows s = filter (\<lambda>artwork. id' artwork |\<in>| selectedRowIds s) (artworks s)"

definition totalSelectedCount :: "app_state \<Rightarrow> nat" where
  "totalSelectedCount s = fcard (selectedRowIds s)"

section \<open>Bulk selection: \<open>handleSelectRowsByCount\<close>\<close>

text \<open>
  The inner \<open>for ... of\<close> loop over one page: it stops when \<open>rowsToSelect\<close> is 0,
  and otherwise adds the id and decrements.
\<close>

fun select_page :: "Artwork list \<Rightarrow> int fset \<times> int \<Rightarrow> int fset \<times> int" where
  "select_page [] (updatedSelectedIds, rowsToSelect) = (updatedSelectedIds, rowsToSelect)"
| "select_page (artwork # rest) (updatedSelectedIds, rowsToSelect) =
     (if rowsToSelect = 0 then (updatedSelectedIds, rowsToSelect)
      else select_page rest (finsert (id' artwork) updatedSelectedIds, rowsToSelect - 1))"

text \<open>
  What the loop takes from a response: the array \<open>data.data\<close> that the \<open>for ... of\<close>
  iterates, or the error thrown instead, which is the rejection of the awaited chain or
  the \<open>TypeError\<close> of iterating \<open>undefined\<close>. \<open>data.pagination\<close> is not read.
\<close>

fun body_data :: "response \<Rightarrow> error + Artwork list" where
  "body_data (Rejected e) = Inl e"
| "body_data (Resolved d p) = Inr d"
| "body_data (NoPagination d) = Inr d"
| "body_data NoData = Inl TypeError"

text \<open>
  The \<open>while\<close> loop. Its bound \<open>total_pages\<close> is read from the state the handler was
  created in, not from the responses. The result is the list of pages requested, in
  order, and either the error thrown at the last of them or the set built.
\<close>

function walk :: "(int \<Rightarrow> response) \<Rightarrow> int \<Rightarrow> int \<Rightarrow> int \<Rightarrow> int fset \<Rightarrow> int list \<times> (error + int fset)" where
  "walk server bound rowsToSelect currentPage updatedSelectedIds =
     (if 0 < rowsToSelect \<and> currentPage \<le> bound then
        (case body_data (server currentPage) of
           Inl e \<Rightarrow> ([currentPage], Inl e)
         | Inr d \<Rightarrow>
             (case select_page d (updatedSelectedIds, rowsToSelect) of
                (ids, remaining) \<Rightarrow>
                  (case walk server bound remaining (currentPage + 1) ids of
                     (pages, res) \<Rightarrow> (currentPage # pages, res))))
      else ([], Inr updatedSelectedIds))"
  by pat_completeness auto
termination
  by (relation "measure (\<lambda>(server, bound, rowsToSelect, currentPage, ids). nat (bound + 1 - currentPage))") auto

declare walk.simps [simp del]

text \<open>
  The handler ends in one of two ways: it returns (its promise resolves, to no
  value), or the loop threw and nothing caught it (its promise rejects with that
  error). The handler reads \<open>selectedRowIds\<close>, \<open>pagination\<close> and
  \<open>rowCountInput\<close> of the state it is called in, and its setters run only after the
  loop; the result is that of a call during which no other handler runs.
\<close>

datatype outcome = Returned | Threw error

record result =
  state :: app_state
  effects :: "effect list"
  outcome :: outcome

definition handleSelectRowsByCount :: "(int \<Rightarrow> response) \<Rightarrow> app_state \<Rightarrow> result" where
  "handleSelectRowsByCount server s =
     (let invalid = \<lparr>state = s, effects = [Alert ''Please enter a valid number''], outcome = Returned\<rparr>
      in case parseInt (rowCountInput s) of
           None \<Rightarrow> invalid
         | Some count \<Rightarrow>
             if count \<le> 0 then invalid
             else (case walk server (total_pages (pagination s)) count 1 (selectedRowIds s) of
                     (pages, Inl e) \<Rightarrow> \<lparr>state = s, effects = map Fetch pages, outcome = Threw e\<rparr>
                   | (pages, Inr updatedSelectedIds) \<Rightarrow>
                       \<lparr>state = s\<lparr>selectedRowIds := updatedSelectedIds, rowCountInput := ''''\<rparr>,
                        effects = map Fetch pages @ [HideOverlay], outcome = Returned\<rparr>))"

text \<open>
  For stating which pages the loop requests: the number of records a response hands
  to the loop, the number handed by the pages from \<open>p\<close> up to but not including \<open>j\<close>,
  and a response that reports another \<open>total_pages\<close> with the same records.
\<close>

definition page_rows :: "response \<Rightarrow> int" where
  "page_rows r = (case body_data r of Inl e \<Rightarrow> 0 | Inr d \<Rightarrow> int (length d))"

definition rows_between :: "(int \<Rightarrow> response) \<Rightarrow> int \<Rightarrow> int \<Rightarrow> int" where
  "rows_between server p j = sum_list (map (\<lambda>q. page_rows (server q)) [p..j - 1])"

fun with_total_pages :: "int \<Rightarrow> response \<Rightarrow> response" where
  "with_total_pages k (Resolved d p) = Resolved d (p\<lparr>total_pages := k\<rparr>)"
| "with_total_pages k r = r"

section \<open>The remote collection\<close>

text \<open>
  Modelled from the spec: the remote endpoint is not part of the repository. A page is
  a fixed-size, offset-addressed slice of the collection, returned with the pagination
  metadata of the data model (\<open>offset = (current_page - 1) * limit\<close>); the contract
  is for positive page numbers, and any other is answered as a transport failure.
\<close>

definition fetchPage :: "Artwork list \<Rightarrow> nat \<Rightarrow> int \<Rightarrow> response" where
  "fetchPage collection lim pageNumber =
     (if pageNumber < 1 then Rejected NetworkError
      else Resolved (take lim (drop (nat (pageNumber - 1) * lim) collection))
             \<lparr>total' = int (length collection), limit = int lim,
              offset = (pageNumber - 1) * int lim,
              total_pages = int ((length collection + lim - 1) div lim),
              current_page = pageNumber\<rparr>)"

text \<open>
  The effect run when the component is mounted, \<open>fetchArtworks(1)\<close>, from the
  initial state, with its response arrived.
\<close>

definition after_first_load :: "(int \<Rightarrow> response) \<Rightarrow> app_state" where
  "after_first_load server = fst (fetchArtworks server 1 initial_state)"

text \<open>A record with the given id, for concrete collections.\<close>

definition record_with_id :: "int \<Rightarrow> Artwork" where
  "record_with_id i =
     \<lparr>id' = i, title = '''', place_of_origin = '''', artist_display = '''', inscriptions = '''',
      date_start = 0, date_end = 0\<rparr>"

definition collection_of_size :: "nat \<Rightarrow> Artwork list" where
  "collection_of_size n = map (\<lambda>k. record_with_id (int k)) [1..<Suc n]"

section \<open>The loops of the bulk selection\<close>

lemma select_page_take:
  "0 \<le> r \<Longrightarrow> select_page rows (ids, r) =
     (ids |\<union>| fset_of_list (map id' (take (nat r) rows)), r - int (min (nat r) (length rows)))"
proof (induction rows arbitrary: ids r)
  case Nil
  then show ?case by simp
next
  case (Cons a rows)
  show ?case
  proof (cases "r = 0")
    case True
    then show ?thesis by simp
  next
    case False
    with Cons.prems have pos: "0 \<le> r - 1" and nat: "nat r = Suc (nat (r - 1))" by auto
    show ?thesis
      using False Cons.IH [OF pos] by (simp add: nat)
  qed
qed

lemma select_page_union:
  "select_page rows (ids, r) =
     (ids |\<union>| fst (select_page rows ({||}, r)), snd (select_page rows ({||}, r)))"
proof (induction rows arbitrary: ids r)
  case Nil
  then show ?case by simp
next
  case (Cons a rows)
  show ?case
    using Cons.IH [of "finsert (id' a) ids" "r - 1"] Cons.IH [of "{|id' a|}" "r - 1"]
    by auto
qed

lemma walk_no_rows: "r \<le> 0 \<Longrightarrow> walk server b r p ids = ([], Inr ids)"
  by (subst walk.simps) simp

lemma walk_no_pages: "b < p \<Longrightarrow> walk server b r p ids = ([], Inr ids)"
  by (subst walk.simps) simp

lemma walk_error:
  "0 < r \<Longrightarrow> p \<le> b \<Longrightarrow> body_data (server p) = Inl e \<Longrightarrow> walk server b r p ids = ([p], Inl e)"
  by (subst walk.simps) simp

lemma walk_data:
  "0 < r \<Longrightarrow> p \<le> b \<Longrightarrow> body_data (server p) = Inr d \<Longrightarrow>
   walk server b r p ids =
     (p # fst (walk server b (snd (select_page d (ids, r))) (p + 1) (fst (select_page d (ids, r)))),
      snd (walk server b (snd (select_page d (ids, r))) (p + 1) (fst (select_page d (ids, r)))))"
  by (subst walk.simps) (simp add: case_prod_beta)


lemma walk_Resolved:
  "0 < r \<Longrightarrow> p \<le> b \<Longrightarrow> server p = Resolved d pg \<Longrightarrow>
   walk server b r p ids =
     (p # fst (walk server b (snd (select_page d (ids, r))) (p + 1) (fst (select_page d (ids, r)))),
      snd (walk server b (snd (select_page d (ids, r))) (p + 1) (fst (select_page d (ids, r)))))"
  by (rule walk_data) simp_all

lemma walk_union:
  "walk server b r p ids =
     (fst (walk server b r p {||}), map_sum (\<lambda>e. e) (\<lambda>A. ids |\<union>| A) (snd (walk server b r p {||})))"
proof (induction "nat (b + 1 - p)" arbitrary: p r ids)
  case 0
  then have "b < p" by simp
  then show ?case by (simp add: walk_no_pages)
next
  case (Suc n)
  then have le: "p \<le> b" and n: "n = nat (b + 1 - (p + 1))" by auto
  show ?case
  proof (cases "0 < r")
    case False
    then show ?thesis by (simp add: walk_no_rows)
  next
    case True
    show ?thesis
    proof (cases "body_data (server p)")
      case (Inl e)
      then show ?thesis using True le by (simp add: walk_error)
    next
      case (Inr d)
      let ?F = "fst (select_page d ({||}, r))"
      let ?r = "snd (select_page d ({||}, r))"
      have sp: "select_page d (ids, r) = (ids |\<union>| ?F, ?r)"
        by (rule select_page_union)
      have a: "walk server b ?r (p + 1) (ids |\<union>| ?F) =
               (fst (walk server b ?r (p + 1) {||}),
                map_sum (\<lambda>e. e) (\<lambda>A. (ids |\<union>| ?F) |\<union>| A) (snd (walk server b ?r (p + 1) {||})))"
        by (rule Suc.hyps(1) [OF n])
      have b: "walk server b ?r (p + 1) ?F =
               (fst (walk server b ?r (p + 1) {||}),
                map_sum (\<lambda>e. e) (\<lambda>A. ?F |\<union>| A) (snd (walk server b ?r (p + 1) {||})))"
        by (rule Suc.hyps(1) [OF n])
      show ?thesis
        unfolding walk_data [where server = server, OF True le Inr] sp
        by (simp add: a b sum.map_comp comp_def funion_assoc)
    qed
  qed
qed

lemma walk_pages:
  "\<exists>k. p - 1 \<le> k \<and> (k \<le> b \<or> k = p - 1) \<and> fst (walk server b r p ids) = [p..k] \<and>
       (\<forall>e. snd (walk server b r p ids) = Inl e \<longrightarrow> p \<le> k \<and> body_data (server k) = Inl e)"
proof (induction "nat (b + 1 - p)" arbitrary: p r ids)
  case 0
  then have "b < p" by simp
  then have "walk server b r p ids = ([], Inr ids)" by (rule walk_no_pages)
  then show ?case by (intro exI [of _ "p - 1"]) simp
next
  case (Suc n)
  then have le: "p \<le> b" and n: "n = nat (b + 1 - (p + 1))" by auto
  show ?case
  proof (cases "0 < r")
    case False
    then have "walk server b r p ids = ([], Inr ids)" by (simp add: walk_no_rows)
    then show ?thesis by (intro exI [of _ "p - 1"]) simp
  next
    case True
    show ?thesis
    proof (cases "body_data (server p)")
      case (Inl e)
      then have "walk server b r p ids = ([p], Inl e)" using True le by (simp add: walk_error)
      then show ?thesis using Inl le by (intro exI [of _ p]) simp
    next
      case (Inr d)
      let ?ids = "fst (select_page d (ids, r))"
      let ?r = "snd (select_page d (ids, r))"
      from Suc.hyps(1) [OF n, of ?r ?ids]
      obtain k where k: "p \<le> k" "k \<le> b \<or> k = p"
        "fst (walk server b ?r (p + 1) ?ids) = [p + 1..k]"
        "\<forall>e. snd (walk server b ?r (p + 1) ?ids) = Inl e \<longrightarrow> p + 1 \<le> k \<and> body_data (server k) = Inl e"
        by auto
      have kb: "k \<le> b" using k(2) le by auto
      have "[p..k] = p # [p + 1..k]" using k(1) by (simp add: upto_rec1)
      then show ?thesis
        using k(1,3,4) kb
        by (intro exI [of _ k]) (simp add: walk_data [where server = server, OF True le Inr])
    qed
  qed
qed

lemma walk_pages_bounded:
  assumes "walk server b r 1 ids = (pages, res)" and "p \<in> set pages"
  shows "1 \<le> p \<and> p \<le> b"
proof -
  obtain k where k: "k \<le> b \<or> k = 1 - 1" "fst (walk server b r 1 ids) = [1..k]"
    using walk_pages [of 1 b server r ids] by blast
  from assms k(2) have "p \<in> set [1..k]" by simp
  then have "1 \<le> p" "p \<le> k" by simp_all
  with k(1) show ?thesis by auto
qed


lemma body_data_with_total_pages: "body_data (with_total_pages k r) = body_data r"
  by (cases r) simp_all

lemma page_rows_nonneg: "0 \<le> page_rows r"
  by (simp add: page_rows_def split: sum.split)

lemma rows_between_nonneg: "0 \<le> rows_between server p j"
  unfolding rows_between_def by (rule sum_list_nonneg) (auto simp: page_rows_nonneg)

lemma rows_between_empty: "j \<le> p \<Longrightarrow> rows_between server p j = 0"
  by (simp add: rows_between_def)

lemma rows_between_step:
  "p < j \<Longrightarrow> rows_between server p j = page_rows (server p) + rows_between server (p + 1) j"
  by (simp add: rows_between_def upto_rec1 [of p "j - 1"])

lemma walk_data_only:
  assumes "\<And>q. body_data (server q) = body_data (server' q)"
  shows "walk server b r p ids = walk server' b r p ids"
proof (induction "nat (b + 1 - p)" arbitrary: p r ids)
  case 0
  then have "b < p" by simp
  then show ?case by (simp add: walk_no_pages)
next
  case (Suc n)
  then have le: "p \<le> b" and n: "n = nat (b + 1 - (p + 1))" by auto
  show ?case
  proof (cases "0 < r")
    case False
    then show ?thesis by (simp add: walk_no_rows)
  next
    case True
    show ?thesis
    proof (cases "body_data (server p)")
      case (Inl e)
      then have "body_data (server' p) = Inl e" using assms [of p] by simp
      with Inl True le show ?thesis by (simp add: walk_error)
    next
      case (Inr d)
      then have Inr': "body_data (server' p) = Inr d" using assms [of p] by simp
      show ?thesis
        unfolding walk_data [where server = server, OF True le Inr]
          walk_data [where server = server', OF True le Inr'] Suc.hyps(1) [OF n] ..
    qed
  qed
qed

lemma walk_requested_iff:
  "j \<in> set (fst (walk server b r p ids)) \<longleftrightarrow>
     p \<le> j \<and> j \<le> b \<and> (\<forall>q \<in> set [p..j - 1]. \<exists>d. body_data (server q) = Inr d)
     \<and> rows_between server p j < r"
proof (induction "nat (b + 1 - p)" arbitrary: p r ids)
  case 0
  then have "b < p" by simp
  then show ?case by (simp add: walk_no_pages)
next
  case (Suc n)
  then have le: "p \<le> b" and n: "n = nat (b + 1 - (p + 1))" by auto
  show ?case
  proof (cases "0 < r")
    case False
    moreover have "0 \<le> rows_between server p j" by (rule rows_between_nonneg)
    ultimately show ?thesis by (simp add: walk_no_rows)
  next
    case True
    have here: "rows_between server p p < r" using True by (simp add: rows_between_empty)
    show ?thesis
    proof (cases "body_data (server p)")
      case (Inl e)
      have w: "walk server b r p ids = ([p], Inl e)" using True le Inl by (rule walk_error)
      show ?thesis
      proof (cases "j = p")
        case True
        then show ?thesis using w le here by simp
      next
        case False
        have "\<not> (\<forall>q \<in> set [p..j - 1]. \<exists>d. body_data (server q) = Inr d)" if "p \<le> j"
        proof -
          from that False have "p \<in> set [p..j - 1]" by simp
          with Inl show ?thesis by force
        qed
        then show ?thesis using w False by auto
      qed
    next
      case (Inr d)
      let ?ids = "fst (select_page d (ids, r))"
      let ?r = "snd (select_page d (ids, r))"
      note w = walk_data [where server = server, OF True le Inr, of ids]
      have r': "?r = r - int (min (nat r) (length d))"
        using True by (simp add: select_page_take)
      have rows: "page_rows (server p) = int (length d)" by (simp add: page_rows_def Inr)
      show ?thesis
      proof (cases "j = p")
        case True
        then show ?thesis using w le here by simp
      next
        case False
        have IH: "j \<in> set (fst (walk server b ?r (p + 1) ?ids)) \<longleftrightarrow>
            p + 1 \<le> j \<and> j \<le> b \<and> (\<forall>q \<in> set [p + 1..j - 1]. \<exists>d. body_data (server q) = Inr d)
            \<and> rows_between server (p + 1) j < ?r"
          by (rule Suc.hyps(1) [OF n])
        show ?thesis
        proof (cases "p < j")
          case lt: True
          have up: "[p..j - 1] = p # [p + 1..j - 1]" using lt by (simp add: upto_rec1)
          have S: "0 \<le> rows_between server (p + 1) j" by (rule rows_between_nonneg)
          have "rows_between server p j < r \<longleftrightarrow> rows_between server (p + 1) j < ?r"
            unfolding rows_between_step [OF lt] rows r' using S True by (auto simp: min_def)
          then show ?thesis
            using lt False Inr by (simp add: w IH up)
        next
          case ge: False
          then show ?thesis using False by (simp add: w IH)
        qed
      qed
    qed
  qed
qed

lemma walk_twice:
  assumes "walk server b r p ids = (pages, Inr ids')"
  shows "walk server b r p ids' = (pages, Inr ids')"
proof -
  obtain A where A: "snd (walk server b r p {||}) = Inr A" and ids': "ids' = ids |\<union>| A"
    and pages: "fst (walk server b r p {||}) = pages"
    using assms walk_union [of server b r p ids]
    by (cases "snd (walk server b r p {||})") auto
  show ?thesis
    using walk_union [of server b r p ids'] A ids' pages by auto
qed

lemma walk_one_page:
  assumes s1: "server 1 = Resolved d1 p1" and r: "0 < r" "r \<le> int (length d1)" and b: "1 \<le> b"
  shows "walk server b r 1 ids = ([1], Inr (ids |\<union>| fset_of_list (map id' (take (nat r) d1))))"
proof -
  have r0: "0 \<le> r" using r by simp
  have mn: "min (nat r) (length d1) = nat r" using r by linarith
  have sel: "select_page d1 (ids, r) = (ids |\<union>| fset_of_list (map id' (take (nat r) d1)), 0)"
    unfolding select_page_take [OF r0] mn using r0 by simp
  show ?thesis
    by (simp only: walk_Resolved [where server = server and p = 1, OF r(1) b s1] sel
        fst_conv snd_conv walk_no_rows [OF order_refl])
qed

lemma walk_two_pages:
  assumes s1: "server 1 = Resolved d1 p1" and s2: "server 2 = Resolved d2 p2"
    and r: "int (length d1) < r" "r \<le> int (length d1) + int (length d2)" and b: "2 \<le> b"
  shows "walk server b r 1 ids =
           ([1, 2], Inr (ids |\<union>| fset_of_list (map id' (d1 @ take (nat r - length d1) d2))))"
proof -
  have r0: "0 < r" "0 \<le> r" using r by auto
  have sel1: "select_page d1 (ids, r) = (ids |\<union>| fset_of_list (map id' d1), r - int (length d1))"
    using r by (simp add: select_page_take [OF r0(2)])
  have r1: "0 < r - int (length d1)" "0 \<le> r - int (length d1)" using r by auto
  have sel2: "select_page d2 (ids |\<union>| fset_of_list (map id' d1), r - int (length d1)) =
              (ids |\<union>| fset_of_list (map id' d1) |\<union>|
                 fset_of_list (map id' (take (nat (r - int (length d1))) d2)), 0)"
  proof -
    have "min (nat (r - int (length d1))) (length d2) = nat (r - int (length d1))"
      using r by linarith
    then show ?thesis using r1 by (simp add: select_page_take [OF r1(2)])
  qed
  have n: "nat (r - int (length d1)) = nat r - length d1" by simp
  have b1: "1 \<le> b" using b by simp
  have w2: "walk server b (r - int (length d1)) 2 (ids |\<union>| fset_of_list (map id' d1)) =
          ([2], Inr (ids |\<union>| fset_of_list (map id' d1) |\<union>|
                 fset_of_list (map id' (take (nat (r - int (length d1))) d2))))"
    by (simp only: walk_Resolved [where server = server and p = 2, OF r1(1) b s2] sel2
        fst_conv snd_conv walk_no_rows [OF order_refl])
  have "walk server b r 1 ids =
          ([1, 2], Inr (ids |\<union>| fset_of_list (map id' d1) |\<union>|
                 fset_of_list (map id' (take (nat (r - int (length d1))) d2))))"
    by (simp only: walk_Resolved [where server = server and p = 1, OF r0(1) b1 s1] sel1
        fst_conv snd_conv one_add_one w2)
  then show ?thesis by (simp add: n funion_assoc)
qed


section \<open>The remote collection, page by page\<close>

lemma fetchPage_Resolved:
  "1 \<le> p \<Longrightarrow> \<exists>pg. fetchPage coll lim p = Resolved (take lim (drop (nat (p - 1) * lim) coll)) pg"
  by (simp add: fetchPage_def)

lemma walk_whole_collection:
  assumes p: "1 \<le> p" and r: "int (length (drop (nat (p - 1) * lim) coll)) < r"
  shows "walk (fetchPage coll lim) b r p ids =
           ([p..b], Inr (ids |\<union>| fset_of_list (map id'
              (take (nat (b + 1 - p) * lim) (drop (nat (p - 1) * lim) coll)))))"
  using assms
proof (induction "nat (b + 1 - p)" arbitrary: p r ids)
  case 0
  then have "b < p" by simp
  then show ?case using 0 by (simp add: walk_no_pages)
next
  case (Suc n)
  then have le: "p \<le> b" and n: "n = nat (b + 1 - (p + 1))" by auto
  define rest where "rest = drop (nat (p - 1) * lim) coll"
  define page where "page = take lim rest"
  have r0: "0 < r" "0 \<le> r" using Suc.prems by auto
  obtain pg where srv: "fetchPage coll lim p = Resolved page pg"
    unfolding page_def rest_def using fetchPage_Resolved [OF Suc.prems(1)] by blast
  have len: "length page \<le> length rest" by (simp add: page_def)
  have big: "int (length rest) < r" using Suc.prems(2) by (simp only: rest_def)
  have tk: "take (nat r) page = page" using big len by (intro take_all) linarith
  have mn: "min (nat r) (length page) = length page" using big len by linarith
  have sel: "select_page page (ids, r) = (ids |\<union>| fset_of_list (map id' page), r - int (length page))"
    unfolding select_page_take [OF r0(2)] tk mn ..
  have nxt: "nat (p + 1 - 1) * lim = nat (p - 1) * lim + lim"
  proof -
    have "nat (p + 1 - 1) = Suc (nat (p - 1))" using Suc.prems(1) by linarith
    then show ?thesis by simp
  qed
  have rest': "drop (nat (p + 1 - 1) * lim) coll = drop lim rest"
    unfolding nxt rest_def by (simp add: add.commute)
  have "length (drop lim rest) + length page = length rest"
    by (simp add: page_def)
  then have r': "int (length (drop (nat (p + 1 - 1) * lim) coll)) < r - int (length page)"
    unfolding rest' using big by linarith
  have p1: "1 \<le> p + 1" using Suc.prems(1) by simp
  have IH: "walk (fetchPage coll lim) b (r - int (length page)) (p + 1) (ids |\<union>| fset_of_list (map id' page)) =
     ([p + 1..b], Inr (ids |\<union>| fset_of_list (map id' page) |\<union>| fset_of_list (map id'
              (take (nat (b + 1 - (p + 1)) * lim) (drop (nat (p + 1 - 1) * lim) coll)))))"
    by (rule Suc.hyps(1) [OF n p1 r'])
  have cnt: "nat (b + 1 - p) * lim = lim + nat (b + 1 - (p + 1)) * lim"
    using Suc.hyps(2) n by (metis mult_Suc)
  have cat: "take (nat (b + 1 - p) * lim) rest = page @ take (nat (b + 1 - (p + 1)) * lim) (drop lim rest)"
    unfolding cnt page_def by (rule take_add)
  have up: "[p..b] = p # [p + 1..b]" using le by (simp add: upto_rec1)
  have "walk (fetchPage coll lim) b r p ids =
           ([p..b], Inr (ids |\<union>| fset_of_list (map id' (take (nat (b + 1 - p) * lim) rest))))"
    unfolding walk_Resolved [where server = "fetchPage coll lim", OF r0(1) le srv] sel fst_conv snd_conv IH
      cat up rest'
    by (simp add: funion_assoc)
  then show ?case by (simp only: rest_def)
qed

lemma after_first_load_fetchPage:
  "after_first_load (fetchPage collection lim) =
     initial_state\<lparr>artworks := take lim collection,
       pagination := \<lparr>total' = int (length collection), limit = int lim, offset = 0,
                      total_pages = int ((length collection + lim - 1) div lim), current_page = 1\<rparr>\<rparr>"
  by (simp add: after_first_load_def fetchArtworks_def fetchArtworks_call_def fetchArtworks_resume_def
      fetchPage_def initial_state_def)

lemma length_collection_of_size: "length (collection_of_size n) = n"
  by (simp add: collection_of_size_def)

lemma ids_collection_of_size: "map id' (collection_of_size n) = map int [1..<Suc n]"
  by (simp add: collection_of_size_def record_with_id_def)

lemma distinct_collection_of_size: "distinct (map id' (collection_of_size n))"
  unfolding ids_collection_of_size by (simp add: distinct_map)

lemma ids_page_collection_of_size:
  "i + m \<le> n \<Longrightarrow> map id' (take m (drop i (collection_of_size n))) = map int [Suc i..<Suc (i + m)]"
proof -
  assume le: "i + m \<le> n"
  have "map id' (take m (drop i (collection_of_size n))) =
          take m (drop i (map id' (collection_of_size n)))"
    by (simp only: take_map drop_map)
  also have "\<dots> = map int (take m (drop i [1..<Suc n]))"
    by (simp only: take_map drop_map ids_collection_of_size)
  also have "drop i [1..<Suc n] = [Suc i..<Suc n]"
    by (simp del: upt_Suc)
  also have "take m [Suc i..<Suc n] = [Suc i..<Suc (i + m)]"
    using le by (simp del: upt_Suc)
  finally show ?thesis .
qed

lemma ids_take_collection_of_size:
  "m \<le> n \<Longrightarrow> map id' (take m (collection_of_size n)) = map int [1..<Suc m]"
  using ids_page_collection_of_size [of 0 m n] by simp

lemma fcard_ids_distinct: "distinct xs \<Longrightarrow> fcard (fset_of_list xs) = length xs"
  by (simp add: fcard.rep_eq fset_of_list.rep_eq distinct_card)

section \<open>The handlers, case by case\<close>

lemma fold_delete_ids: "fold (\<lambda>i u. u |-| {|i|}) xs u = u |-| fset_of_list xs"
  by (induction xs arbitrary: u) auto

lemma fold_add_ids:
  "fold (\<lambda>artwork u. finsert (id' artwork) u) rows u = u |\<union>| fset_of_list (map id' rows)"
  by (induction rows arbitrary: u) auto

lemma parseInt_examples:
  "parseInt ''15'' = Some 15" "parseInt ''3.7'' = Some 3" "parseInt ''0'' = Some 0"
  "parseInt ''-3'' = Some (- 3)" "parseInt '''' = None" "parseInt ''abc'' = None"
  "parseInt ''5'' = Some 5" "parseInt ''3'' = Some 3"
  by code_simp+

lemma handleSelectRowsByCount_invalid:
  assumes "parseInt (rowCountInput s) = None \<or> (\<exists>n. parseInt (rowCountInput s) = Some n \<and> n \<le> 0)"
  shows "handleSelectRowsByCount server s =
           \<lparr>state = s, effects = [Alert ''Please enter a valid number''], outcome = Returned\<rparr>"
  using assms by (auto simp: handleSelectRowsByCount_def Let_def)

lemma handleSelectRowsByCount_Threw:
  assumes "parseInt (rowCountInput s) = Some n" "0 < n"
    and "walk server (total_pages (pagination s)) n 1 (selectedRowIds s) = (pages, Inl e)"
  shows "handleSelectRowsByCount server s = \<lparr>state = s, effects = map Fetch pages, outcome = Threw e\<rparr>"
  using assms by (simp add: handleSelectRowsByCount_def Let_def)

lemma handleSelectRowsByCount_Returned:
  assumes "parseInt (rowCountInput s) = Some n" "0 < n"
    and "walk server (total_pages (pagination s)) n 1 (selectedRowIds s) = (pages, Inr ids)"
  shows "handleSelectRowsByCount server s =
           \<lparr>state = s\<lparr>selectedRowIds := ids, rowCountInput := ''''\<rparr>,
            effects = map Fetch pages @ [HideOverlay], outcome = Returned\<rparr>"
  using assms by (simp add: handleSelectRowsByCount_def Let_def)

lemma handleSelectRowsByCount_cases:
  obtains (invalid) "handleSelectRowsByCount server s =
             \<lparr>state = s, effects = [Alert ''Please enter a valid number''], outcome = Returned\<rparr>"
  | (threw) n pages e where "parseInt (rowCountInput s) = Some n" "0 < n"
      "walk server (total_pages (pagination s)) n 1 (selectedRowIds s) = (pages, Inl e)"
      "handleSelectRowsByCount server s = \<lparr>state = s, effects = map Fetch pages, outcome = Threw e\<rparr>"
  | (returned) n pages ids where "parseInt (rowCountInput s) = Some n" "0 < n"
      "walk server (total_pages (pagination s)) n 1 (selectedRowIds s) = (pages, Inr ids)"
      "handleSelectRowsByCount server s =
         \<lparr>state = s\<lparr>selectedRowIds := ids, rowCountInput := ''''\<rparr>,
          effects = map Fetch pages @ [HideOverlay], outcome = Returned\<rparr>"
proof (cases "parseInt (rowCountInput s)")
  case None
  then show ?thesis using invalid handleSelectRowsByCount_invalid by blast
next
  case (Some n)
  show ?thesis
  proof (cases "0 < n")
    case False
    then have "n \<le> 0" by simp
    with Some show ?thesis using invalid handleSelectRowsByCount_invalid by blast
  next
    case True
    obtain pages res where w: "walk server (total_pages (pagination s)) n 1 (selectedRowIds s) = (pages, res)"
      by (cases "walk server (total_pages (pagination s)) n 1 (selectedRowIds s)")
    show ?thesis
    proof (cases res)
      case (Inl e)
      with w show ?thesis using threw [OF Some True] handleSelectRowsByCount_Threw [OF Some True] by blast
    next
      case (Inr ids)
      with w show ?thesis using returned [OF Some True] handleSelectRowsByCount_Returned [OF Some True] by blast
    qed
  qed
qed

lemma Fetch_in_effects:
  assumes "parseInt (rowCountInput s) = Some n" "0 < n"
  shows "Fetch j \<in> set (effects (handleSelectRowsByCount server s)) \<longleftrightarrow>
         j \<in> set (fst (walk server (total_pages (pagination s)) n 1 (selectedRowIds s)))"
proof -
  obtain pages res where w: "walk server (total_pages (pagination s)) n 1 (selectedRowIds s) = (pages, res)"
    by (cases "walk server (total_pages (pagination s)) n 1 (selectedRowIds s)")
  show ?thesis
  proof (cases res)
    case (Inl e)
    show ?thesis
      using handleSelectRowsByCount_Threw [OF assms w [unfolded Inl]] w by auto
  next
    case (Inr ids)
    show ?thesis
      using handleSelectRowsByCount_Returned [OF assms w [unfolded Inr]] w by auto
  qed
qed

lemma handleSelectRowsByCount_data_only:
  assumes "\<And>q. body_data (server q) = body_data (server' q)"
  shows "handleSelectRowsByCount server s = handleSelectRowsByCount server' s"
  unfolding handleSelectRowsByCount_def walk_data_only [of server server', OF assms] ..

lemma handleSelectRowsByCount_two_pages:
  assumes tp: "2 \<le> total_pages (pagination s)"
    and n: "parseInt (rowCountInput s) = Some n" "int lim < n" "n \<le> 2 * int lim"
    and len: "2 * lim \<le> length collection"
  shows "handleSelectRowsByCount (fetchPage collection lim) s =
           \<lparr>state = s\<lparr>selectedRowIds := selectedRowIds s |\<union>| fset_of_list (map id' (take (nat n) collection)),
                       rowCountInput := ''''\<rparr>,
            effects = [Fetch 1, Fetch 2, HideOverlay], outcome = Returned\<rparr>"
proof -
  define d1 where "d1 = take lim (drop (nat (1 - 1) * lim) collection)"
  define d2 where "d2 = take lim (drop (nat (2 - 1) * lim) collection)"
  obtain p1 where s1: "fetchPage collection lim 1 = Resolved d1 p1"
    unfolding d1_def using fetchPage_Resolved [of 1] by blast
  obtain p2 where s2: "fetchPage collection lim 2 = Resolved d2 p2"
    unfolding d2_def using fetchPage_Resolved [of 2] by (metis one_le_numeral)
  have l1: "length d1 = lim" and l2: "length d2 = lim" using len by (simp_all add: d1_def d2_def)
  have r: "int (length d1) < n" "n \<le> int (length d1) + int (length d2)"
    using n by (simp_all add: l1 l2)
  have d1: "d1 = take lim collection" by (simp add: d1_def)
  have d2: "take (nat n - lim) d2 = take (nat n - lim) (drop lim collection)"
    using n by (simp add: d2_def min_def)
  have nn: "lim + (nat n - lim) = nat n" using n by linarith
  have "d1 @ take (nat n - length d1) d2 =
          take lim collection @ take (nat n - lim) (drop lim collection)"
    unfolding l1 d2 by (simp only: d1)
  also have "\<dots> = take (lim + (nat n - lim)) collection"
    by (rule take_add [symmetric])
  finally have cat: "d1 @ take (nat n - length d1) d2 = take (nat n) collection"
    by (simp only: nn)
  have pos: "0 < n" using n by linarith
  show ?thesis
    using handleSelectRowsByCount_Returned [OF n(1) pos walk_two_pages [OF s1 s2 r tp]]
    by (simp add: cat)
qed

lemma first_15_of_100_from_empty:
  "totalSelectedCount (state (handleSelectRowsByCount (fetchPage (collection_of_size 100) 12)
     ((after_first_load (fetchPage (collection_of_size 100) 12))\<lparr>rowCountInput := ''15''\<rparr>))) = 15"
proof -
  let ?s = "(after_first_load (fetchPage (collection_of_size 100) 12))\<lparr>rowCountInput := ''15''\<rparr>"
  have tp: "2 \<le> total_pages (pagination ?s)"
    by (simp add: after_first_load_fetchPage length_collection_of_size)
  have n: "parseInt (rowCountInput ?s) = Some 15"
    by (simp add: parseInt_examples)
  have ids: "map id' (take 15 (collection_of_size 100)) = map int [1..<Suc 15]"
    by (rule ids_take_collection_of_size) simp
  have sel: "selectedRowIds ?s = {||}"
    by (simp add: after_first_load_fetchPage initial_state_def)
  have "handleSelectRowsByCount (fetchPage (collection_of_size 100) 12) ?s =
           \<lparr>state = ?s\<lparr>selectedRowIds := selectedRowIds ?s |\<union>|
                 fset_of_list (map id' (take (nat 15) (collection_of_size 100))), rowCountInput := ''''\<rparr>,
            effects = [Fetch 1, Fetch 2, HideOverlay], outcome = Returned\<rparr>"
    using tp n by (intro handleSelectRowsByCount_two_pages) (simp_all add: length_collection_of_size)
  then have "totalSelectedCount (state (handleSelectRowsByCount (fetchPage (collection_of_size 100) 12) ?s)) =
      fcard (fset_of_list (map int [1..<Suc 15]))"
    unfolding sel by (simp add: totalSelectedCount_def ids)
  also have "\<dots> = length (map int [1..<Suc 15])"
    by (rule fcard_ids_distinct) (simp add: distinct_map)
  finally show ?thesis by simp
qed

section \<open>Bulk selection\<close>

text \<open>
  C1, as the code has it. With the stored \<open>total_pages = 9\<close>, a collection of 100
  records with distinct ids served in pages of 12, and the count 15, the handler
  requests page 1 and then page 2 and nothing else, returns, and the selection is
  the starting selection together with the ids of the first 15 records of the
  collection. These are 15 ids; the selection has size 15 when the starting selection
  held no other id, as when it was empty.
\<close>

theorem selectFirstN_15_of_100:
  assumes "total_pages (pagination s) = 9"
    and "length collection = 100" and "distinct (map id' collection)"
    and "parseInt (rowCountInput s) = Some 15"
  shows "effects (handleSelectRowsByCount (fetchPage collection 12) s) = [Fetch 1, Fetch 2, HideOverlay]
    \<and> outcome (handleSelectRowsByCount (fetchPage collection 12) s) = Returned
    \<and> selectedRowIds (state (handleSelectRowsByCount (fetchPage collection 12) s)) =
          selectedRowIds s |\<union>| fset_of_list (map id' (take 15 collection))
    \<and> fcard (fset_of_list (map id' (take 15 collection))) = 15
    \<and> (selectedRowIds s |\<subseteq>| fset_of_list (map id' (take 15 collection)) \<longrightarrow>
          totalSelectedCount (state (handleSelectRowsByCount (fetchPage collection 12) s)) = 15)"
proof -
  have r: "handleSelectRowsByCount (fetchPage collection 12) s =
           \<lparr>state = s\<lparr>selectedRowIds := selectedRowIds s |\<union>| fset_of_list (map id' (take (nat 15) collection)),
                       rowCountInput := ''''\<rparr>,
            effects = [Fetch 1, Fetch 2, HideOverlay], outcome = Returned\<rparr>"
    using assms by (intro handleSelectRowsByCount_two_pages) simp_all
  have "distinct (take 15 (map id' collection))"
    using assms(3) by (rule distinct_take)
  then have "distinct (map id' (take 15 collection))"
    by (simp only: take_map)
  then have "fcard (fset_of_list (map id' (take 15 collection))) = length (map id' (take 15 collection))"
    by (rule fcard_ids_distinct)
  also have "\<dots> = 15"
    using assms(2) by simp
  finally have card: "fcard (fset_of_list (map id' (take 15 collection))) = 15" .
  have "totalSelectedCount (state (handleSelectRowsByCount (fetchPage collection 12) s)) = 15"
    if "selectedRowIds s |\<subseteq>| fset_of_list (map id' (take 15 collection))"
  proof -
    from that have "selectedRowIds s |\<union>| fset_of_list (map id' (take 15 collection)) =
        fset_of_list (map id' (take 15 collection))"
      by blast
    then show ?thesis using card by (simp add: r totalSelectedCount_def)
  qed
  then show ?thesis using card by (simp add: r)
qed

theorem selectFirstN_15_of_100_witness:
  "totalSelectedCount (state (handleSelectRowsByCount (fetchPage (collection_of_size 100) 12)
     ((after_first_load (fetchPage (collection_of_size 100) 12))\<lparr>rowCountInput := ''15''\<rparr>))) = 15"
proof -
  let ?s = "(after_first_load (fetchPage (collection_of_size 100) 12))\<lparr>rowCountInput := ''15''\<rparr>"
  have a: "total_pages (pagination ?s) = 9"
    by (simp add: after_first_load_fetchPage length_collection_of_size)
  have b: "parseInt (rowCountInput ?s) = Some 15"
    by (simp add: parseInt_examples)
  have c: "selectedRowIds ?s |\<subseteq>| fset_of_list (map id' (take 15 (collection_of_size 100)))"
    by (simp add: after_first_load_fetchPage initial_state_def)
  show ?thesis
    using selectFirstN_15_of_100 [OF a length_collection_of_size distinct_collection_of_size b] c
    by blast
qed

text \<open>
  The size is not 15 for every starting selection: with record 50 selected before,
  it is 16.
\<close>

theorem selectFirstN_15_size_counterexample:
  "totalSelectedCount (state (handleSelectRowsByCount (fetchPage (collection_of_size 100) 12)
     ((after_first_load (fetchPage (collection_of_size 100) 12))
        \<lparr>selectedRowIds := {|50|}, rowCountInput := ''15''\<rparr>))) = 16"
proof -
  let ?s = "(after_first_load (fetchPage (collection_of_size 100) 12))
        \<lparr>selectedRowIds := {|50|}, rowCountInput := ''15''\<rparr>"
  have tp: "2 \<le> total_pages (pagination ?s)"
    by (simp add: after_first_load_fetchPage length_collection_of_size)
  have n: "parseInt (rowCountInput ?s) = Some 15"
    by (simp add: parseInt_examples)
  have ids: "map id' (take 15 (collection_of_size 100)) = map int [1..<Suc 15]"
    by (rule ids_take_collection_of_size) simp
  have "handleSelectRowsByCount (fetchPage (collection_of_size 100) 12) ?s =
           \<lparr>state = ?s\<lparr>selectedRowIds := selectedRowIds ?s |\<union>|
                 fset_of_list (map id' (take (nat 15) (collection_of_size 100))), rowCountInput := ''''\<rparr>,
            effects = [Fetch 1, Fetch 2, HideOverlay], outcome = Returned\<rparr>"
    using tp n by (intro handleSelectRowsByCount_two_pages) (simp_all add: length_collection_of_size)
  then have "totalSelectedCount (state (handleSelectRowsByCount (fetchPage (collection_of_size 100) 12) ?s)) =
      fcard (finsert 50 (fset_of_list (map int [1..<Suc 15])))"
    by (simp add: totalSelectedCount_def ids)
  also have "\<dots> = Suc (fcard (fset_of_list (map int [1..<Suc 15])))"
    by (rule fcard_finsert_disjoint) (auto simp: fset_of_list_elem)
  also have "fcard (fset_of_list (map int [1..<Suc 15])) = length (map int [1..<Suc 15])"
    by (rule fcard_ids_distinct) (simp add: distinct_map)
  finally show ?thesis by simp
qed




text \<open>
  C3, as the code has it. The count is \<open>parseInt\<close> of the text typed. When that is
  \<open>NaN\<close> or at most 0, the handler alerts and returns: no page is requested and the state,
  so the selection, is the one before the call. A text that is not an integer but
  starts with a positive one, such as \<open>3.7\<close>, is not refused: its count is 3.
\<close>

theorem invalid_count_alerts:
  assumes "parseInt (rowCountInput s) = None \<or> (\<exists>n. parseInt (rowCountInput s) = Some n \<and> n \<le> 0)"
  shows "handleSelectRowsByCount server s =
           \<lparr>state = s, effects = [Alert ''Please enter a valid number''], outcome = Returned\<rparr>
    \<and> (\<forall>p. Fetch p \<notin> set (effects (handleSelectRowsByCount server s)))
    \<and> selectedRowIds (state (handleSelectRowsByCount server s)) = selectedRowIds s"
  using handleSelectRowsByCount_invalid [OF assms, of server] by simp

theorem invalid_count_alerts_witness:
  "effects (handleSelectRowsByCount (fetchPage (collection_of_size 100) 12)
      ((after_first_load (fetchPage (collection_of_size 100) 12))\<lparr>rowCountInput := ''0''\<rparr>))
     = [Alert ''Please enter a valid number'']
   \<and> effects (handleSelectRowsByCount (fetchPage (collection_of_size 100) 12)
      ((after_first_load (fetchPage (collection_of_size 100) 12))\<lparr>rowCountInput := ''-3''\<rparr>))
     = [Alert ''Please enter a valid number'']
   \<and> effects (handleSelectRowsByCount (fetchPage (collection_of_size 100) 12)
      ((after_first_load (fetchPage (collection_of_size 100) 12))\<lparr>rowCountInput := ''abc''\<rparr>))
     = [Alert ''Please enter a valid number'']"
proof -
  let ?s = "after_first_load (fetchPage (collection_of_size 100) 12)"
  have a: "parseInt (rowCountInput (?s\<lparr>rowCountInput := ''0''\<rparr>)) = None
           \<or> (\<exists>n. parseInt (rowCountInput (?s\<lparr>rowCountInput := ''0''\<rparr>)) = Some n \<and> n \<le> 0)"
    by (simp add: parseInt_examples)
  have b: "parseInt (rowCountInput (?s\<lparr>rowCountInput := ''-3''\<rparr>)) = None
           \<or> (\<exists>n. parseInt (rowCountInput (?s\<lparr>rowCountInput := ''-3''\<rparr>)) = Some n \<and> n \<le> 0)"
    by (simp add: parseInt_examples)
  have c: "parseInt (rowCountInput (?s\<lparr>rowCountInput := ''abc''\<rparr>)) = None
           \<or> (\<exists>n. parseInt (rowCountInput (?s\<lparr>rowCountInput := ''abc''\<rparr>)) = Some n \<and> n \<le> 0)"
    by (simp add: parseInt_examples)
  show ?thesis
    using invalid_count_alerts [OF a] invalid_count_alerts [OF b] invalid_count_alerts [OF c]
    by simp
qed

text \<open>
  The text \<open>3.7\<close> is not an integer, and is accepted: page 1 is requested and the
  first three records are selected.
\<close>

theorem non_integer_count_counterexample:
  "effects (handleSelectRowsByCount (fetchPage (collection_of_size 100) 12)
      ((after_first_load (fetchPage (collection_of_size 100) 12))\<lparr>rowCountInput := ''3.7''\<rparr>))
     = [Fetch 1, HideOverlay]
   \<and> selectedRowIds (state (handleSelectRowsByCount (fetchPage (collection_of_size 100) 12)
      ((after_first_load (fetchPage (collection_of_size 100) 12))\<lparr>rowCountInput := ''3.7''\<rparr>)))
     = {|1, 2, 3|}"
proof -
  let ?server = "fetchPage (collection_of_size 100) 12"
  let ?s = "(after_first_load (fetchPage (collection_of_size 100) 12))\<lparr>rowCountInput := ''3.7''\<rparr>"
  obtain pg where s1: "?server 1 = Resolved (take 12 (drop (nat (1 - 1) * 12) (collection_of_size 100))) pg"
    using fetchPage_Resolved [of 1 "collection_of_size 100" 12] by auto
  have w: "walk ?server (total_pages (pagination ?s)) 3 1 (selectedRowIds ?s) =
      ([1], Inr (selectedRowIds ?s |\<union>| fset_of_list (map id'
          (take (nat 3) (take 12 (drop (nat (1 - 1) * 12) (collection_of_size 100)))))))"
    by (rule walk_one_page [where server = ?server, OF s1])
      (simp_all add: after_first_load_fetchPage length_collection_of_size)
  have ids: "map id' (take 3 (collection_of_size 100)) = map int [1..<Suc 3]"
    by (rule ids_take_collection_of_size) simp
  have n: "parseInt (rowCountInput ?s) = Some 3" by (simp add: parseInt_examples)
  have "handleSelectRowsByCount ?server ?s =
      \<lparr>state = ?s\<lparr>selectedRowIds := selectedRowIds ?s |\<union>| fset_of_list (map id'
          (take (nat 3) (take 12 (drop (nat (1 - 1) * 12) (collection_of_size 100))))), rowCountInput := ''''\<rparr>,
       effects = map Fetch [1] @ [HideOverlay], outcome = Returned\<rparr>"
    by (rule handleSelectRowsByCount_Returned [OF n _ w]) simp
  moreover have "take (nat 3) (take 12 (drop (nat (1 - 1) * 12) (collection_of_size 100))) =
      take 3 (collection_of_size 100)"
    by simp
  ultimately have r: "handleSelectRowsByCount ?server ?s =
      \<lparr>state = ?s\<lparr>selectedRowIds := selectedRowIds ?s |\<union>| fset_of_list (map int [1..<Suc 3]),
         rowCountInput := ''''\<rparr>,
       effects = map Fetch [1] @ [HideOverlay], outcome = Returned\<rparr>"
    by (simp only: ids)
  have three: "fset_of_list (map int [1..<Suc 3]) = {|1, 2, 3|}"
    by code_simp
  show ?thesis
    unfolding r three by (simp add: after_first_load_fetchPage initial_state_def)
qed

text \<open>
  C6, as the code has it. The walk stops at the stored \<open>total_pages\<close>. When that
  bound covers the collection (\<open>total_pages * limit\<close> is at least the number of records,
  as it is once a page has been loaded) and the count \<open>n\<close> exceeds the number of
  records, the handler requests every page from 1 to \<open>total_pages\<close>, adds the ids of all
  the records to the selection and returns without an error. It returns no value; the
  number of ids added is the number of records, which is less than \<open>n\<close>, and is the
  size of the selection when none was selected before.
\<close>

theorem selectFirstN_overshoot:
  assumes "int (length collection) \<le> total_pages (pagination s) * int lim"
    and "parseInt (rowCountInput s) = Some n" and "int (length collection) < n"
  shows "outcome (handleSelectRowsByCount (fetchPage collection lim) s) = Returned
    \<and> effects (handleSelectRowsByCount (fetchPage collection lim) s) =
          map Fetch [1..total_pages (pagination s)] @ [HideOverlay]
    \<and> selectedRowIds (state (handleSelectRowsByCount (fetchPage collection lim) s)) =
          selectedRowIds s |\<union>| fset_of_list (map id' collection)
    \<and> (distinct (map id' collection) \<longrightarrow>
          int (fcard (fset_of_list (map id' collection))) = int (length collection)
          \<and> int (fcard (fset_of_list (map id' collection))) < n
          \<and> (selectedRowIds s = {||} \<longrightarrow>
                totalSelectedCount (state (handleSelectRowsByCount (fetchPage collection lim) s)) =
                  length collection))"
proof -
  let ?b = "total_pages (pagination s)"
  have pos: "0 < n" using assms(3) by linarith
  have r: "int (length (drop (nat (1 - 1) * lim) collection)) < n"
    using assms(3) by simp
  have "length collection \<le> nat ?b * lim"
  proof (cases "0 \<le> ?b")
    case True
    then have "int (length collection) \<le> int (nat ?b * lim)" using assms(1) by simp
    then show ?thesis by (simp only: of_nat_le_iff)
  next
    case False
    then have "?b * int lim \<le> 0" by (simp add: mult_le_0_iff)
    with assms(1) have "length collection = 0" by linarith
    then show ?thesis by simp
  qed
  then have cover: "length collection \<le> nat (?b + 1 - 1) * lim" by simp
  have all: "take (nat (?b + 1 - 1) * lim) (drop (nat (1 - 1) * lim) collection) = collection"
    using cover by simp
  have w: "walk (fetchPage collection lim) ?b n 1 (selectedRowIds s) =
             ([1..?b], Inr (selectedRowIds s |\<union>| fset_of_list (map id' collection)))"
    using walk_whole_collection [of 1 lim collection n ?b "selectedRowIds s", OF order_refl r]
    by (simp only: all)
  have card: "int (fcard (fset_of_list (map id' collection))) = int (length collection)"
    if "distinct (map id' collection)"
    using fcard_ids_distinct [OF that] by simp
  show ?thesis
    using card assms(3)
    by (simp add: handleSelectRowsByCount_Returned [OF assms(2) pos w] totalSelectedCount_def)
qed

theorem selectFirstN_overshoot_witness:
  "selectedRowIds (state (handleSelectRowsByCount (fetchPage (collection_of_size 3) 2)
      ((after_first_load (fetchPage (collection_of_size 3) 2))\<lparr>rowCountInput := ''5''\<rparr>)))
     = fset_of_list (map id' (collection_of_size 3))
   \<and> effects (handleSelectRowsByCount (fetchPage (collection_of_size 3) 2)
      ((after_first_load (fetchPage (collection_of_size 3) 2))\<lparr>rowCountInput := ''5''\<rparr>))
     = [Fetch 1, Fetch 2, HideOverlay]
   \<and> int (fcard (fset_of_list (map id' (collection_of_size 3)))) = 3
   \<and> totalSelectedCount (state (handleSelectRowsByCount (fetchPage (collection_of_size 3) 2)
      ((after_first_load (fetchPage (collection_of_size 3) 2))\<lparr>rowCountInput := ''5''\<rparr>))) = 3"
proof -
  let ?s = "(after_first_load (fetchPage (collection_of_size 3) 2))\<lparr>rowCountInput := ''5''\<rparr>"
  have tp: "total_pages (pagination ?s) = 2"
    by (simp add: after_first_load_fetchPage length_collection_of_size)
  have a: "int (length (collection_of_size 3)) \<le> total_pages (pagination ?s) * int 2"
    unfolding tp by (simp add: length_collection_of_size)
  have b: "parseInt (rowCountInput ?s) = Some 5" by (simp add: parseInt_examples)
  have c: "int (length (collection_of_size 3)) < 5" by (simp add: length_collection_of_size)
  have up: "[1..2] = [1, 2 :: int]" by code_simp
  have sel: "selectedRowIds ?s = {||}" by (simp add: after_first_load_fetchPage initial_state_def)
  show ?thesis
    using selectFirstN_overshoot [OF a b c] distinct_collection_of_size [of 3]
    unfolding tp up sel by (simp add: length_collection_of_size)
qed

text \<open>
  Not all records are selected whenever the count exceeds their number: submitted
  before the first page has loaded, the count 5 on a collection of 3 records selects
  none.
\<close>

theorem selectFirstN_overshoot_counterexample:
  "selectedRowIds (state (handleSelectRowsByCount (fetchPage (collection_of_size 3) 2)
      (initial_state\<lparr>rowCountInput := ''5''\<rparr>))) = {||}
   \<and> fset_of_list (map id' (collection_of_size 3)) = {|1, 2, 3|}"
proof -
  let ?s = "initial_state\<lparr>rowCountInput := ''5''\<rparr>"
  have n: "parseInt (rowCountInput ?s) = Some 5" by (simp add: parseInt_examples)
  have w: "walk (fetchPage (collection_of_size 3) 2) (total_pages (pagination ?s)) 5 1 (selectedRowIds ?s) =
             ([], Inr (selectedRowIds ?s))"
    by (rule walk_no_pages) (simp add: initial_state_def)
  have r: "handleSelectRowsByCount (fetchPage (collection_of_size 3) 2) ?s =
      \<lparr>state = ?s\<lparr>selectedRowIds := selectedRowIds ?s, rowCountInput := ''''\<rparr>,
       effects = map Fetch [] @ [HideOverlay], outcome = Returned\<rparr>"
    by (rule handleSelectRowsByCount_Returned [OF n _ w]) simp
  have three: "fset_of_list (map int [1..<Suc 3]) = {|1, 2, 3|}"
    by code_simp
  show ?thesis
    unfolding r ids_collection_of_size three by (simp add: initial_state_def)
qed

text \<open>
  C7. With the same text typed again, and the server answering as before, a second
  bulk selection leaves the selection as the first one left it: the ids it adds are
  already there. So the size after two calls is the size after one; it is 15, not 30,
  where one call gives 15.
\<close>

theorem selectFirstN_idempotent:
  assumes "parseInt t = Some n" and "1 \<le> n"
  shows "selectedRowIds (state (handleSelectRowsByCount server
            ((state (handleSelectRowsByCount server (s\<lparr>rowCountInput := t\<rparr>)))\<lparr>rowCountInput := t\<rparr>))) =
         selectedRowIds (state (handleSelectRowsByCount server (s\<lparr>rowCountInput := t\<rparr>)))
    \<and> totalSelectedCount (state (handleSelectRowsByCount server
            ((state (handleSelectRowsByCount server (s\<lparr>rowCountInput := t\<rparr>)))\<lparr>rowCountInput := t\<rparr>))) =
         totalSelectedCount (state (handleSelectRowsByCount server (s\<lparr>rowCountInput := t\<rparr>)))
    \<and> (totalSelectedCount (state (handleSelectRowsByCount server (s\<lparr>rowCountInput := t\<rparr>))) = 15 \<longrightarrow>
         totalSelectedCount (state (handleSelectRowsByCount server
            ((state (handleSelectRowsByCount server (s\<lparr>rowCountInput := t\<rparr>)))\<lparr>rowCountInput := t\<rparr>))) = 15)"
proof -
  let ?s1 = "s\<lparr>rowCountInput := t\<rparr>"
  let ?once = "handleSelectRowsByCount server ?s1"
  let ?twice = "handleSelectRowsByCount server ((state ?once)\<lparr>rowCountInput := t\<rparr>)"
  have n: "parseInt (rowCountInput ?s1) = Some n" "0 < n" using assms by simp_all
  obtain pages res where w: "walk server (total_pages (pagination ?s1)) n 1 (selectedRowIds ?s1) = (pages, res)"
    by (cases "walk server (total_pages (pagination ?s1)) n 1 (selectedRowIds ?s1)")
  have "selectedRowIds (state ?twice) = selectedRowIds (state ?once)"
  proof (cases res)
    case (Inl e)
    have "state ?once = ?s1"
      using handleSelectRowsByCount_Threw [OF n w [unfolded Inl]] by simp
    then show ?thesis by simp
  next
    case (Inr ids)
    have once: "state ?once = ?s1\<lparr>selectedRowIds := ids, rowCountInput := ''''\<rparr>"
      using handleSelectRowsByCount_Returned [OF n w [unfolded Inr]] by simp
    let ?s2 = "(state ?once)\<lparr>rowCountInput := t\<rparr>"
    have n2: "parseInt (rowCountInput ?s2) = Some n" using assms by simp
    have "walk server (total_pages (pagination ?s1)) n 1 ids = (pages, Inr ids)"
      using w [unfolded Inr] by (rule walk_twice)
    then have w2: "walk server (total_pages (pagination ?s2)) n 1 (selectedRowIds ?s2) = (pages, Inr ids)"
      by (simp add: once)
    show ?thesis
      using handleSelectRowsByCount_Returned [OF n2 n(2) w2] by (simp add: once)
  qed
  then show ?thesis by (simp add: totalSelectedCount_def)
qed

theorem selectFirstN_idempotent_witness:
  "parseInt ''15'' = Some 15
   \<and> totalSelectedCount (state (handleSelectRowsByCount (fetchPage (collection_of_size 100) 12)
        ((state (handleSelectRowsByCount (fetchPage (collection_of_size 100) 12)
           ((after_first_load (fetchPage (collection_of_size 100) 12))\<lparr>rowCountInput := ''15''\<rparr>)))
         \<lparr>rowCountInput := ''15''\<rparr>))) = 15"
proof -
  have n: "parseInt ''15'' = Some 15" by (rule parseInt_examples)
  show ?thesis
    using selectFirstN_idempotent [OF n, of "fetchPage (collection_of_size 100) 12"
        "after_first_load (fetchPage (collection_of_size 100) 12)"]
      first_15_of_100_from_empty n
    by simp
qed

text \<open>
  C10. The bound of the walk is the \<open>total_pages\<close> of the stored pagination, and
  nothing the responses report. Every page requested lies between 1 and that bound.
  The handler reads only the records of a response: two servers that give the same
  records to the loop, whatever pagination they report, give the same result. And the
  pages requested are exactly these: page \<open>j\<close> is requested if and only if it lies
  between 1 and the stored \<open>total_pages\<close>, every page before it gave records, and the
  pages before it gave fewer than \<open>n\<close> records; so the walk goes on to the stored bound
  as long as records are missing. In particular, with a valid count \<open>n \<ge> 1\<close> entered
  before any page has been loaded (the stored \<open>total_pages\<close> is 0) the handler requests
  no page, leaves the selection as it was and returns without an error.
\<close>

theorem bulk_select_bound_is_stored_total_pages:
  "(\<forall>p. Fetch p \<in> set (effects (handleSelectRowsByCount server s)) \<longrightarrow>
        1 \<le> p \<and> p \<le> total_pages (pagination s))
   \<and> (total_pages (pagination s) = 0 \<and> parseInt (rowCountInput s) = Some n \<and> 1 \<le> n \<longrightarrow>
        effects (handleSelectRowsByCount server s) = [HideOverlay]
        \<and> selectedRowIds (state (handleSelectRowsByCount server s)) = selectedRowIds s
        \<and> outcome (handleSelectRowsByCount server s) = Returned)
   \<and> ((\<forall>q. body_data (server q) = body_data (server' q)) \<longrightarrow>
        handleSelectRowsByCount server s = handleSelectRowsByCount server' s)
   \<and> (parseInt (rowCountInput s) = Some n \<and> 1 \<le> n \<longrightarrow>
        (Fetch j \<in> set (effects (handleSelectRowsByCount server s)) \<longleftrightarrow>
           1 \<le> j \<and> j \<le> total_pages (pagination s)
           \<and> (\<forall>q \<in> set [1..j - 1]. \<exists>d. body_data (server q) = Inr d)
           \<and> rows_between server 1 j < n))"
proof -
  have bounded: "1 \<le> p \<and> p \<le> total_pages (pagination s)"
    if f: "Fetch p \<in> set (effects (handleSelectRowsByCount server s))" for p
  proof (cases server s rule: handleSelectRowsByCount_cases)
    case invalid
    with f show ?thesis by simp
  next
    case (threw n pages e)
    with f have "p \<in> set pages" by auto
    then show ?thesis using walk_pages_bounded [OF threw(3)] by blast
  next
    case (returned n pages ids)
    with f have "p \<in> set pages" by auto
    then show ?thesis using walk_pages_bounded [OF returned(3)] by blast
  qed
  have unloaded: "effects (handleSelectRowsByCount server s) = [HideOverlay]
        \<and> selectedRowIds (state (handleSelectRowsByCount server s)) = selectedRowIds s
        \<and> outcome (handleSelectRowsByCount server s) = Returned"
    if a: "total_pages (pagination s) = 0 \<and> parseInt (rowCountInput s) = Some n \<and> 1 \<le> n"
  proof -
    from a have w: "walk server (total_pages (pagination s)) n 1 (selectedRowIds s) =
                      ([], Inr (selectedRowIds s))"
      by (simp add: walk_no_pages)
    have n: "parseInt (rowCountInput s) = Some n" "0 < n" using a by auto
    show ?thesis by (simp add: handleSelectRowsByCount_Returned [OF n w])
  qed
  have data_only: "handleSelectRowsByCount server s = handleSelectRowsByCount server' s"
    if "\<forall>q. body_data (server q) = body_data (server' q)"
    using that by (intro handleSelectRowsByCount_data_only) simp
  have exact: "Fetch j \<in> set (effects (handleSelectRowsByCount server s)) \<longleftrightarrow>
           1 \<le> j \<and> j \<le> total_pages (pagination s)
           \<and> (\<forall>q \<in> set [1..j - 1]. \<exists>d. body_data (server q) = Inr d)
           \<and> rows_between server 1 j < n"
    if a: "parseInt (rowCountInput s) = Some n \<and> 1 \<le> n"
  proof -
    have n: "parseInt (rowCountInput s) = Some n" "0 < n" using a by auto
    show ?thesis
      unfolding Fetch_in_effects [OF n] by (rule walk_requested_iff)
  qed
  from bounded unloaded data_only exact show ?thesis by blast
qed

theorem bulk_select_bound_is_stored_total_pages_witness:
  "total_pages (pagination (initial_state\<lparr>rowCountInput := ''5''\<rparr>)) = 0
   \<and> parseInt (rowCountInput (initial_state\<lparr>rowCountInput := ''5''\<rparr>)) = Some 5
   \<and> effects (handleSelectRowsByCount (fetchPage (collection_of_size 3) 2)
        (initial_state\<lparr>rowCountInput := ''5''\<rparr>)) = [HideOverlay]
   \<and> selectedRowIds (state (handleSelectRowsByCount (fetchPage (collection_of_size 3) 2)
        (initial_state\<lparr>rowCountInput := ''5''\<rparr>))) = {||}
   \<and> Fetch 2 \<in> set (effects (handleSelectRowsByCount (fetchPage (collection_of_size 100) 12)
        ((after_first_load (fetchPage (collection_of_size 100) 12))\<lparr>rowCountInput := ''15''\<rparr>)))
   \<and> 2 \<le> total_pages (pagination
        ((after_first_load (fetchPage (collection_of_size 100) 12))\<lparr>rowCountInput := ''15''\<rparr>))
   \<and> effects (handleSelectRowsByCount (\<lambda>q. with_total_pages 1 (fetchPage (collection_of_size 100) 12 q))
        ((after_first_load (fetchPage (collection_of_size 100) 12))\<lparr>rowCountInput := ''15''\<rparr>))
       = [Fetch 1, Fetch 2, HideOverlay]
   \<and> rows_between (fetchPage (collection_of_size 100) 12) 1 3 = 24
   \<and> Fetch 3 \<notin> set (effects (handleSelectRowsByCount (fetchPage (collection_of_size 100) 12)
        ((after_first_load (fetchPage (collection_of_size 100) 12))\<lparr>rowCountInput := ''15''\<rparr>)))
   \<and> rows_between (fetchPage (collection_of_size 3) 2) 1 2 = 2
   \<and> Fetch 2 \<in> set (effects (handleSelectRowsByCount (fetchPage (collection_of_size 3) 2)
        ((after_first_load (fetchPage (collection_of_size 3) 2))\<lparr>rowCountInput := ''5''\<rparr>)))"
proof -
  let ?srv = "fetchPage (collection_of_size 100) 12"
  let ?s = "(after_first_load ?srv)\<lparr>rowCountInput := ''15''\<rparr>"
  let ?srv3 = "fetchPage (collection_of_size 3) 2"
  let ?s3 = "(after_first_load ?srv3)\<lparr>rowCountInput := ''5''\<rparr>"
  have tp: "2 \<le> total_pages (pagination ?s)"
    by (simp add: after_first_load_fetchPage length_collection_of_size)
  have n: "parseInt (rowCountInput ?s) = Some 15"
    by (simp add: parseInt_examples)
  have eff: "effects (handleSelectRowsByCount ?srv ?s) = [Fetch 1, Fetch 2, HideOverlay]"
    using handleSelectRowsByCount_two_pages [OF tp n, of 12 "collection_of_size 100"]
    by (simp add: length_collection_of_size)
  then have f: "Fetch 2 \<in> set (effects (handleSelectRowsByCount ?srv ?s))"
    by simp
  have one: "1 \<le> (2 :: int) \<and> 2 \<le> total_pages (pagination ?s)"
    using bulk_select_bound_is_stored_total_pages [of ?srv ?s] f by blast
  have same: "\<forall>q. body_data (with_total_pages 1 (?srv q)) = body_data (?srv q)"
    by (simp add: body_data_with_total_pages)
  have "handleSelectRowsByCount (\<lambda>q. with_total_pages 1 (?srv q)) ?s = handleSelectRowsByCount ?srv ?s"
    using bulk_select_bound_is_stored_total_pages
      [of "\<lambda>q. with_total_pages 1 (?srv q)" ?s _ ?srv] same
    by blast
  then have three: "effects (handleSelectRowsByCount (\<lambda>q. with_total_pages 1 (?srv q)) ?s) =
      [Fetch 1, Fetch 2, HideOverlay]"
    using eff by simp
  have up2: "[1..3 - 1] = [1, 2 :: int]" and up1: "[1..2 - 1] = [1 :: int]" by code_simp+
  have rows: "rows_between ?srv 1 3 = 24"
    unfolding rows_between_def up2
    by (simp add: page_rows_def fetchPage_def length_collection_of_size)
  have n15: "parseInt (rowCountInput ?s) = Some 15 \<and> (1 :: int) \<le> 15"
    using n by simp
  have four: "Fetch 3 \<notin> set (effects (handleSelectRowsByCount ?srv ?s))"
    using bulk_select_bound_is_stored_total_pages [of ?srv ?s 15 _ 3] n15 rows by simp
  have tp3: "total_pages (pagination ?s3) = 2"
    by (simp add: after_first_load_fetchPage length_collection_of_size)
  have n5: "parseInt (rowCountInput ?s3) = Some 5 \<and> (1 :: int) \<le> 5"
    by (simp add: parseInt_examples)
  have rows3: "rows_between ?srv3 1 2 = 2"
    unfolding rows_between_def up1
    by (simp add: page_rows_def fetchPage_def length_collection_of_size)
  have data3: "\<forall>q \<in> set [1..2 - 1]. \<exists>d. body_data (?srv3 q) = Inr d"
    unfolding up1 by (simp add: fetchPage_def)
  have five: "Fetch 2 \<in> set (effects (handleSelectRowsByCount ?srv3 ?s3))"
    using bulk_select_bound_is_stored_total_pages [of ?srv3 ?s3 5 _ 2] n5 rows3 data3 tp3 by simp
  have zero: "total_pages (pagination (initial_state\<lparr>rowCountInput := ''5''\<rparr>)) = 0
     \<and> parseInt (rowCountInput (initial_state\<lparr>rowCountInput := ''5''\<rparr>)) = Some 5
     \<and> effects (handleSelectRowsByCount ?srv3 (initial_state\<lparr>rowCountInput := ''5''\<rparr>)) = [HideOverlay]
     \<and> selectedRowIds (state (handleSelectRowsByCount ?srv3 (initial_state\<lparr>rowCountInput := ''5''\<rparr>))) = {||}"
    using bulk_select_bound_is_stored_total_pages
      [of ?srv3 "initial_state\<lparr>rowCountInput := ''5''\<rparr>" 5]
    by (simp add: initial_state_def parseInt_examples)
  from zero f one three rows four rows3 five show ?thesis by blast
qed

section \<open>Page reconciliation and the visible selection\<close>

text \<open>
  C4. \<open>handleSelectionChange\<close> with the checked rows \<open>rows\<close> of the displayed page
  (\<open>pageIds\<close> are the ids of \<open>artworks\<close>, \<open>selectedSubset\<close> the ids of \<open>rows\<close>, a
  subset of \<open>pageIds\<close>) stores the selection \<open>(old - pageIds) \<union> selectedSubset\<close>: an id
  of the page is selected afterwards exactly when it is in \<open>selectedSubset\<close>, and an id
  that is not of the page is selected afterwards exactly when it was before.
\<close>

theorem handleSelectionChange_reconcilePage:
  assumes "fset_of_list (map id' rows) |\<subseteq>| fset_of_list (map id' (artworks s))"
  shows "selectedRowIds (handleSelectionChange (Some rows) s) =
           (selectedRowIds s |-| fset_of_list (map id' (artworks s))) |\<union>| fset_of_list (map id' rows)
         \<and> (\<forall>i. i |\<in>| fset_of_list (map id' (artworks s)) \<longrightarrow>
               (i |\<in>| selectedRowIds (handleSelectionChange (Some rows) s) \<longleftrightarrow>
                i |\<in>| fset_of_list (map id' rows)))
         \<and> (\<forall>i. i |\<notin>| fset_of_list (map id' (artworks s)) \<longrightarrow>
               (i |\<in>| selectedRowIds (handleSelectionChange (Some rows) s) \<longleftrightarrow>
                i |\<in>| selectedRowIds s))"
proof -
  have eq: "selectedRowIds (handleSelectionChange (Some rows) s) =
           (selectedRowIds s |-| fset_of_list (map id' (artworks s))) |\<union>| fset_of_list (map id' rows)"
    by (simp add: handleSelectionChange_def fold_delete_ids fold_add_ids)
  show ?thesis
    unfolding eq using assms by blast
qed

theorem handleSelectionChange_reconcilePage_witness:
  "selectedRowIds (handleSelectionChange (Some [record_with_id 2])
      (initial_state\<lparr>artworks := [record_with_id 1, record_with_id 2],
                     selectedRowIds := {|1, 7|}\<rparr>)) = {|2, 7|}"
proof -
  let ?s = "initial_state\<lparr>artworks := [record_with_id 1, record_with_id 2], selectedRowIds := {|1, 7|}\<rparr>"
  have sub: "fset_of_list (map id' [record_with_id 2]) |\<subseteq>| fset_of_list (map id' (artworks ?s))"
    by (simp add: record_with_id_def)
  show ?thesis
    using handleSelectionChange_reconcilePage [OF sub]
    by (auto simp: record_with_id_def)
qed

text \<open>
  C9. \<open>getCurrentPageSelectedRows\<close> returns a subsequence of the page's records;
  every record returned has its id in the selection; every record of the page whose
  id is in the selection is returned; nothing outside the page is returned; and it is
  the whole of it: any subsequence of the page made of selected records is a
  subsequence of the result.
\<close>

theorem getCurrentPageSelectedRows_exact:
  "subseq (getCurrentPageSelectedRows s) (artworks s)
   \<and> (\<forall>a \<in> set (getCurrentPageSelectedRows s). id' a |\<in>| selectedRowIds s)
   \<and> (\<forall>a \<in> set (artworks s). id' a |\<in>| selectedRowIds s \<longrightarrow> a \<in> set (getCurrentPageSelectedRows s))
   \<and> (\<forall>a. a \<in> set (getCurrentPageSelectedRows s) \<longrightarrow> a \<in> set (artworks s))
   \<and> (\<forall>ys. subseq ys (artworks s) \<and> (\<forall>a \<in> set ys. id' a |\<in>| selectedRowIds s) \<longrightarrow>
          subseq ys (getCurrentPageSelectedRows s))"
proof -
  have "subseq ys (getCurrentPageSelectedRows s)"
    if "subseq ys (artworks s)" "\<forall>a \<in> set ys. id' a |\<in>| selectedRowIds s" for ys
  proof -
    have "subseq (filter (\<lambda>a. id' a |\<in>| selectedRowIds s) ys) (getCurrentPageSelectedRows s)"
      unfolding getCurrentPageSelectedRows_def using that(1) by (rule subseq_filter)
    moreover have "filter (\<lambda>a. id' a |\<in>| selectedRowIds s) ys = ys"
      using that(2) by (simp add: filter_id_conv)
    ultimately show ?thesis by simp
  qed
  then show ?thesis
    by (auto simp: getCurrentPageSelectedRows_def)
qed

theorem getCurrentPageSelectedRows_exact_witness:
  "record_with_id 1 \<in> set [record_with_id 1, record_with_id 2, record_with_id 3]
   \<and> id' (record_with_id 1) |\<in>| {|3, 1, 40|}
   \<and> record_with_id 1 \<in> set (getCurrentPageSelectedRows
        (initial_state\<lparr>artworks := [record_with_id 1, record_with_id 2, record_with_id 3],
                       selectedRowIds := {|3, 1, 40|}\<rparr>))
   \<and> record_with_id 2 \<notin> set (getCurrentPageSelectedRows
        (initial_state\<lparr>artworks := [record_with_id 1, record_with_id 2, record_with_id 3],
                       selectedRowIds := {|3, 1, 40|}\<rparr>))"
  using getCurrentPageSelectedRows_exact
    [of "initial_state\<lparr>artworks := [record_with_id 1, record_with_id 2, record_with_id 3],
                       selectedRowIds := {|3, 1, 40|}\<rparr>"]
  by (auto simp: record_with_id_def)

section \<open>Page navigation\<close>

text \<open>
  C5, as the code has it. Nothing ties a response to the latest request: the
  continuation of every call runs when its response arrives. A response that
  resolves is committed whichever request in flight it answers; so when
  \<open>fetchArtworks p\<close> and then \<open>fetchArtworks q\<close> are called and the response for \<open>p\<close>
  arrives after the one for \<open>q\<close>, the state shows the page \<open>p\<close> of the earlier call.
\<close>

theorem every_response_commits:
  "(i < length inflight \<and> server (inflight ! i) = Resolved d pg \<longrightarrow>
      fst (step server (Arrive i) (s, inflight)) = s\<lparr>artworks := d, pagination := pg, loading := False\<rparr>)
   \<and> (server p = Resolved d pg \<longrightarrow>
        artworks (fst (run server [Call p, Call q, Arrive 1, Arrive 0] (s, []))) = d
        \<and> pagination (fst (run server [Call p, Call q, Arrive 1, Arrive 0] (s, []))) = pg
        \<and> loading (fst (run server [Call p, Call q, Arrive 1, Arrive 0] (s, []))) = False)"
  by (simp add: run_def fetchArtworks_resume_def fetchArtworks_call_def)

theorem every_response_commits_witness:
  "current_page (pagination (fst (run (fetchPage (collection_of_size 100) 12)
       [Call 3, Call 4, Arrive 1, Arrive 0] (initial_state, [])))) = 3
   \<and> current_page (pagination (fst (step (fetchPage (collection_of_size 100) 12)
       (Arrive 0) (initial_state, [3, 4])))) = 3"
proof -
  have r: "fetchPage (collection_of_size 100) 12 3 =
             Resolved (take 12 (drop 24 (collection_of_size 100)))
               \<lparr>total' = 100, limit = 12, offset = 24, total_pages = 9, current_page = 3\<rparr>"
    by (simp add: fetchPage_def length_collection_of_size)
  have i: "0 < length [3, 4 :: int]" "[3, 4 :: int] ! 0 = 3" by simp_all
  have a: "current_page (pagination (fst (step (fetchPage (collection_of_size 100) 12)
       (Arrive 0) (initial_state, [3, 4])))) = 3"
    using every_response_commits
      [where server = "fetchPage (collection_of_size 100) 12" and i = 0 and inflight = "[3, 4]"
        and s = initial_state] i r
    by simp
  have b: "current_page (pagination (fst (run (fetchPage (collection_of_size 100) 12)
       [Call 3, Call 4, Arrive 1, Arrive 0] (initial_state, [])))) = 3"
    using every_response_commits
      [where server = "fetchPage (collection_of_size 100) 12" and p = 3 and q = 4 and s = initial_state]
    by (simp add: r)
  from a b show ?thesis by simp
qed

text \<open>
  Last-request-wins fails: after \<open>fetchArtworks(3)\<close>, \<open>fetchArtworks(4)\<close>, the response
  for page 4 and then the response for page 3, a collection of 100 records in pages
  of 12 shows page 3, the records 25 to 36.
\<close>

theorem stale_response_counterexample:
  "current_page (pagination (fst (run (fetchPage (collection_of_size 100) 12)
       [Call 3, Call 4, Arrive 1, Arrive 0] (initial_state, [])))) = 3
   \<and> map id' (artworks (fst (run (fetchPage (collection_of_size 100) 12)
       [Call 3, Call 4, Arrive 1, Arrive 0] (initial_state, [])))) =
       [25, 26, 27, 28, 29, 30, 31, 32, 33, 34, 35, 36]"
proof -
  have "fst (run (fetchPage (collection_of_size 100) 12)
          [Call 3, Call 4, Arrive 1, Arrive 0] (initial_state, [])) =
        initial_state\<lparr>artworks := take 12 (drop 24 (collection_of_size 100)),
          pagination := \<lparr>total' = 100, limit = 12, offset = 24, total_pages = 9, current_page = 3\<rparr>,
          loading := False\<rparr>"
    by (simp add: run_def fetchArtworks_resume_def fetchArtworks_call_def fetchPage_def
        length_collection_of_size)
  moreover have "map id' (take 12 (drop 24 (collection_of_size 100))) = map int [Suc 24..<Suc (24 + 12)]"
    by (rule ids_page_collection_of_size) simp
  ultimately show ?thesis by simp
qed




end
